theory Spec2Isabelle
  imports Complex_Main "HOL-Library.Multiset"
begin

section \<open>The ontology graph\<close>

text \<open>
  \<^verbatim>\<open>main.py\<close> loads one \<^verbatim>\<open>GODag\<close> at module scope and queries it three ways:
  \<^verbatim>\<open>godag.get(term_id)\<close> (a dictionary lookup giving a node or \<^verbatim>\<open>None\<close>),
  \<^verbatim>\<open>node.parents\<close> (the parent node objects, each with an \<^verbatim>\<open>id\<close>) and
  \<^verbatim>\<open>node.get_all_parents()\<close>.  A node object holds references to its parent objects, so a
  node is a finitely branching tree of nodes; the dictionary is an association list read with
  \<open>map_of\<close>.  The field \<open>item_id\<close> is what the source reads as \<^verbatim>\<open>par.id\<close>.
\<close>

datatype goterm = GOTerm (item_id: string) (parents: "goterm list")

type_synonym godag = "(string \<times> goterm) list"

text \<open>
  Modelled from the spec: \<^verbatim>\<open>GOTerm.get_all_parents\<close> belongs to the ontology library, which is
  not part of the sources.  Per the spec's query interface it gives the identifiers of all
  transitive ancestors of the node, reached by repeatedly following parent edges; the node
  itself is not included (the caller adds the start term itself).  The result is a Python set;
  here it is a list of identifiers that is only ever read through \<open>set\<close> or filtered.
\<close>

fun get_all_parents :: "goterm \<Rightarrow> string list" where
  "get_all_parents (GOTerm i ps) = concat (map (\<lambda>p. item_id p # get_all_parents p) ps)"

section \<open>Shortest path distance\<close>

text \<open>
  The inner \<^verbatim>\<open>for par in node.parents\<close> loop of \<^verbatim>\<open>_min_steps\<close>: every parent identifier that is
  not yet in \<^verbatim>\<open>seen\<close> is added to \<^verbatim>\<open>seen\<close> and appended to the queue with \<^verbatim>\<open>step + 1\<close>.
\<close>

fun visit_parents ::
  "string list \<Rightarrow> nat \<Rightarrow> (string \<times> nat) list \<Rightarrow> string set \<Rightarrow> (string \<times> nat) list \<times> string set"
where
  "visit_parents [] step queue seen = (queue, seen)"
| "visit_parents (par # pars) step queue seen =
     (if par \<notin> seen
      then visit_parents pars step (queue @ [(par, step + 1)]) (insert par seen)
      else visit_parents pars step queue seen)"

text \<open>All identifiers that occur as the parent of some node stored in the dictionary.\<close>

definition parent_ids :: "godag \<Rightarrow> string set" where
  "parent_ids g = (\<Union>(k, node) \<in> set g. item_id ` set (parents node))"

text \<open>
  The \<^verbatim>\<open>while queue\<close> loop of \<^verbatim>\<open>_min_steps\<close>.  The queue holds (identifier, step) pairs and is
  popped on the left; an identifier that does not resolve is skipped (\<^verbatim>\<open>continue\<close>); an empty
  queue ends the loop with \<^verbatim>\<open>None\<close>.
\<close>

function bfs_loop ::
  "godag \<Rightarrow> string set \<Rightarrow> (string \<times> nat) list \<Rightarrow> string set \<Rightarrow> nat option"
where
  "bfs_loop g target_set [] seen = None"
| "bfs_loop g target_set ((cur, step) # queue) seen =
     (if cur \<in> target_set then Some step
      else case map_of g cur of
          None \<Rightarrow> bfs_loop g target_set queue seen
        | Some node \<Rightarrow>
            (case visit_parents (map item_id (parents node)) step queue seen of
               (queue', seen') \<Rightarrow> bfs_loop g target_set queue' seen'))"
  by pat_completeness auto

text \<open>\<^verbatim>\<open>_min_steps(start_go, target_set)\<close>: the queue starts as \<^verbatim>\<open>[(start_go, 0)]\<close>, seen as \<^verbatim>\<open>{start_go}\<close>.\<close>

definition min_steps :: "godag \<Rightarrow> string \<Rightarrow> string set \<Rightarrow> nat option" where
  "min_steps g start_go target_set = bfs_loop g target_set [(start_go, 0)] {start_go}"

text \<open>
  The \<^verbatim>\<open>for ca in common\<close> loop of \<^verbatim>\<open>_go_distance\<close>, with \<^verbatim>\<open>best\<close> as the loop state.  The
  list is the order in which the Python set \<^verbatim>\<open>common\<close> happens to be iterated.
\<close>

fun best_over :: "godag \<Rightarrow> string \<Rightarrow> string \<Rightarrow> string list \<Rightarrow> nat option \<Rightarrow> nat option" where
  "best_over g go1 go2 [] best = best"
| "best_over g go1 go2 (ca # cas) best =
     (let da = min_steps g go1 {ca};
          db = min_steps g go2 {ca}
      in best_over g go1 go2 cas
           (case (da, db) of
              (Some x, Some y) \<Rightarrow>
                (case best of Some m \<Rightarrow> Some (min m (x + y)) | None \<Rightarrow> Some (x + y))
            | _ \<Rightarrow> best))"

text \<open>
  \<^verbatim>\<open>_go_distance(go1, go2)\<close>.  The result \<^verbatim>\<open>None\<close> of the source is \<open>None\<close> here; the
  function has no statement that raises (both lookups are \<^verbatim>\<open>godag.get\<close>).
\<close>

definition go_distance :: "godag \<Rightarrow> string \<Rightarrow> string \<Rightarrow> nat option" where
  "go_distance g go1 go2 =
     (if go1 = go2 then Some 0
      else case map_of g go1 of
          None \<Rightarrow> None
        | Some a \<Rightarrow>
            (case map_of g go2 of
               None \<Rightarrow> None
             | Some b \<Rightarrow>
                 (let a_anc = go1 # get_all_parents a;
                      b_anc = go2 # get_all_parents b;
                      common = remdups (filter (\<lambda>c. c \<in> set b_anc) a_anc)
                  in if common = [] then None
                     else best_over g go1 go2 common None)))"

section \<open>Semantic similarity\<close>

text \<open>
  Scores are Python floats; here they are real numbers, so the rounding of a quotient or of a
  sum is not part of the model.  In particular the sum of line 176 is taken over floats in the
  order of the list, and may round differently in another order; the sum over the reals does
  not.  Nothing below relies on the mean being independent of that order.
\<close>

datatype py_error = ZeroDivisionError | KeyError

text \<open>Python's \<^verbatim>\<open>/\<close> on numbers: a zero divisor raises.\<close>

definition truediv :: "real \<Rightarrow> real \<Rightarrow> py_error + real" where
  "truediv x y = (if y = 0 then Inl ZeroDivisionError else Inr (x / y))"

text \<open>Line 168: \<^verbatim>\<open>sim = 1 / (1 + d) if d is not None else 0.0\<close>.\<close>

definition similarity :: "nat option \<Rightarrow> py_error + real" where
  "similarity d = (case d of Some n \<Rightarrow> truediv 1 (1 + real n) | None \<Rightarrow> Inr 0)"

type_synonym sim_pair = "string \<times> string \<times> real"

text \<open>The inner \<^verbatim>\<open>for b in setB\<close> loop of \<^verbatim>\<open>_semantic_pairs\<close>, with state \<^verbatim>\<open>(best, pair)\<close>.\<close>

fun scan_setB ::
  "godag \<Rightarrow> string \<Rightarrow> string list \<Rightarrow> real \<Rightarrow> sim_pair \<Rightarrow> py_error + (real \<times> sim_pair)"
where
  "scan_setB g a [] best pair = Inr (best, pair)"
| "scan_setB g a (b # bs) best pair =
     (case similarity (go_distance g a b) of
        Inl e \<Rightarrow> Inl e
      | Inr sim \<Rightarrow>
          if sim > best then scan_setB g a bs sim (a, b, sim)
          else scan_setB g a bs best pair)"

text \<open>The outer \<^verbatim>\<open>for a in setA\<close> loop, with the list \<^verbatim>\<open>scores\<close> as state.\<close>

fun collect_scores ::
  "godag \<Rightarrow> string list \<Rightarrow> string list \<Rightarrow> sim_pair list \<Rightarrow> py_error + sim_pair list"
where
  "collect_scores g [] setB scores = Inr scores"
| "collect_scores g (a # as) setB scores =
     (case scan_setB g a setB 0 (a, [], 0) of
        Inl e \<Rightarrow> Inl e
      | Inr (best, pair) \<Rightarrow>
          collect_scores g as setB (if best > 0 then scores @ [pair] else scores))"

text \<open>
  \<^verbatim>\<open>_semantic_pairs(setA, setB, sim_threshold)\<close>.  The two sets are given as the lists in which
  they are iterated.
\<close>

definition semantic_pairs ::
  "godag \<Rightarrow> string list \<Rightarrow> string list \<Rightarrow> real \<Rightarrow> py_error + (real \<times> sim_pair list)"
where
  "semantic_pairs g setA setB sim_threshold =
     (case collect_scores g setA setB [] of
        Inl e \<Rightarrow> Inl e
      | Inr scores \<Rightarrow>
          if scores = [] then Inr (0, [])
          else (case truediv (sum_list (map (\<lambda>(a, b, s). s) scores)) (real (length scores)) of
                  Inl e \<Rightarrow> Inl e
                | Inr avg_score \<Rightarrow>
                    Inr (avg_score, filter (\<lambda>(a, b, s). s \<ge> sim_threshold) scores)))"

section \<open>Exact comparison and the report\<close>

text \<open>
  The dictionary returned by \<^verbatim>\<open>analyze_pdb\<close>.  The key \<^verbatim>\<open>"semantic_pairs"\<close> is the field
  \<open>sem_pairs\<close> (the name of the local variable it is filled from).
\<close>

record comparison =
  interpro_count :: nat
  deepfri_count :: nat
  common :: "string set"
  common_count :: nat
  high_confidence_common :: "string set"
  high_confidence_count :: nat
  interpro_only :: "string set"
  interpro_only_count :: nat
  deepfri_only :: "string set"
  deepfri_only_count :: nat
  jaccard :: real
  deepfri_scores :: "(string \<times> real) list"
  semantic_avg_sim :: real
  sem_pairs :: "sim_pair list"
  semantic_pairs_count :: nat

text \<open>
  Line 196: \<^verbatim>\<open>{go for go in common if df_go[go] >= 0.8}\<close>, over the elements of \<^verbatim>\<open>common\<close> in
  some order; \<^verbatim>\<open>df_go[go]\<close> raises \<^verbatim>\<open>KeyError\<close> on a missing key.
\<close>

fun high_conf :: "(string \<times> real) list \<Rightarrow> string list \<Rightarrow> py_error + string set" where
  "high_conf df_go [] = Inr {}"
| "high_conf df_go (go # gos) =
     (case map_of df_go go of
        None \<Rightarrow> Inl KeyError
      | Some score \<Rightarrow>
          (case high_conf df_go gos of
             Inl e \<Rightarrow> Inl e
           | Inr acc \<Rightarrow> Inr (if score \<ge> 8 / 10 then insert go acc else acc)))"

text \<open>
  \<^verbatim>\<open>analyze_pdb\<close> from line 191 on.  The three fetching calls before it are the remote
  services; their results are the parameters here: \<open>ipro_go\<close> is the set returned by
  \<^verbatim>\<open>_interpro\<close>, as the list in which it is iterated, and \<open>df_go\<close> is the dictionary returned
  by \<^verbatim>\<open>_deepfri\<close>, as the list of its items in insertion order.
\<close>

definition analyze_pdb ::
  "godag \<Rightarrow> string list \<Rightarrow> (string \<times> real) list \<Rightarrow> real \<Rightarrow> py_error + comparison"
where
  "analyze_pdb g ipro_go df_go sem_sim_threshold =
     (let keys = map fst df_go;
          common_l = filter (\<lambda>t. t \<in> set keys) (remdups ipro_go);
          ipro_only = set ipro_go - set keys;
          df_only = set keys - set ipro_go;
          union_s = set ipro_go \<union> set keys
      in case (if union_s \<noteq> {}
               then truediv (real (card (set common_l))) (real (card union_s))
               else Inr 0) of
           Inl e \<Rightarrow> Inl e
         | Inr jac \<Rightarrow>
             (case high_conf df_go common_l of
                Inl e \<Rightarrow> Inl e
              | Inr high_conf_common \<Rightarrow>
                  (case semantic_pairs g ipro_go keys sem_sim_threshold of
                     Inl e \<Rightarrow> Inl e
                   | Inr (avg_sem_sim, pairs) \<Rightarrow>
                       Inr \<lparr> interpro_count = card (set ipro_go),
                             deepfri_count = card (set keys),
                             common = set common_l,
                             common_count = card (set common_l),
                             high_confidence_common = high_conf_common,
                             high_confidence_count = card high_conf_common,
                             interpro_only = ipro_only,
                             interpro_only_count = card ipro_only,
                             deepfri_only = df_only,
                             deepfri_only_count = card df_only,
                             jaccard = jac,
                             deepfri_scores = df_go,
                             semantic_avg_sim = avg_sem_sim,
                             sem_pairs = pairs,
                             semantic_pairs_count = length pairs \<rparr>)))"

section \<open>Paths in the ontology graph\<close>

text \<open>
  The parent edges that \<^verbatim>\<open>_min_steps\<close> follows: from an identifier that resolves to a node,
  to the identifier of each of that node's parents.  There is no edge from a parent to a child.
\<close>

definition parent_edges :: "godag \<Rightarrow> (string \<times> string) set" where
  "parent_edges g = {(u, v). \<exists>node. map_of g u = Some node \<and> v \<in> item_id ` set (parents node)}"

text \<open>The minimum edge count of a path from \<open>s\<close> to \<open>t\<close> along parent edges.\<close>

definition steps :: "godag \<Rightarrow> string \<Rightarrow> string \<Rightarrow> nat" where
  "steps g s t = (LEAST n. (s, t) \<in> parent_edges g ^^ n)"

text \<open>The ancestor closure of a term: the term itself and everything reachable by parent edges.\<close>

definition ancestor_closure :: "godag \<Rightarrow> string \<Rightarrow> string set" where
  "ancestor_closure g t = {c. (t, c) \<in> (parent_edges g)\<^sup>*}"

text \<open>
  The dictionary is consistent with the node objects: every parent object of a stored node is
  itself stored under its own identifier.  The ontology loader builds the parent references
  by looking the parents up in this very dictionary.
\<close>

definition wf_godag :: "godag \<Rightarrow> bool" where
  "wf_godag g \<longleftrightarrow> (\<forall>(k, node) \<in> set g. \<forall>p \<in> set (parents node). map_of g (item_id p) = Some p)"

text \<open>The sum \<^verbatim>\<open>da + db\<close> for one common ancestor, when both searches succeed.\<close>

definition path_sum :: "godag \<Rightarrow> string \<Rightarrow> string \<Rightarrow> string \<Rightarrow> nat option" where
  "path_sum g go1 go2 ca =
     (case (min_steps g go1 {ca}, min_steps g go2 {ca}) of
        (Some x, Some y) \<Rightarrow> Some (x + y)
      | _ \<Rightarrow> None)"

text \<open>
  The invariant of the \<^verbatim>\<open>while queue\<close> loop for a search started at \<open>s\<close>: queued identifiers
  carry their exact step count, the queue is ordered by step and spans at most two levels,
  every identifier that has left the queue is not a target and has all its parents in
  \<^verbatim>\<open>seen\<close>, and everything reachable in fewer steps than the head of the queue has left it.
\<close>

definition bfs_inv :: "godag \<Rightarrow> string \<Rightarrow> string set \<Rightarrow> (string \<times> nat) list \<Rightarrow> string set \<Rightarrow> bool" where
  "bfs_inv g s T q seen \<longleftrightarrow>
     s \<in> seen \<and> fst ` set q \<subseteq> seen \<and> distinct (map fst q) \<and>
     (\<forall>u \<in> seen - fst ` set q. u \<notin> T \<and> parent_edges g `` {u} \<subseteq> seen) \<and>
     (\<forall>(v, k) \<in> set q. (s, v) \<in> parent_edges g ^^ k \<and> (\<forall>j<k. (s, v) \<notin> parent_edges g ^^ j)) \<and>
     sorted (map snd q) \<and> (\<forall>(v, k) \<in> set q. k \<le> Suc (snd (hd q))) \<and>
     (q \<noteq> [] \<longrightarrow> (\<forall>v j. (s, v) \<in> parent_edges g ^^ j \<longrightarrow> j < snd (hd q) \<longrightarrow> v \<in> seen - fst ` set q))"

text \<open>
  The synthetic graph of the spec's testable properties: root \<open>R\<close>, children \<open>X\<close> and \<open>Y\<close> of
  \<open>R\<close>, child \<open>Z\<close> of \<open>X\<close>.
\<close>

definition syn_R :: goterm where "syn_R = GOTerm ''R'' []"
definition syn_X :: goterm where "syn_X = GOTerm ''X'' [syn_R]"
definition syn_Y :: goterm where "syn_Y = GOTerm ''Y'' [syn_R]"
definition syn_Z :: goterm where "syn_Z = GOTerm ''Z'' [syn_X]"

definition synthetic_dag :: godag where
  "synthetic_dag = [(''R'', syn_R), (''X'', syn_X), (''Y'', syn_Y), (''Z'', syn_Z)]"

section \<open>Similarity scoring and reconciliation as the spec words them\<close>

text \<open>The value of line 168 as a number: \<open>1 / (1 + d)\<close> for a defined distance, 0 otherwise.\<close>

definition sim_val :: "nat option \<Rightarrow> real" where
  "sim_val d = (case d of Some n \<Rightarrow> 1 / (1 + real n) | None \<Rightarrow> 0)"

text \<open>The similarity of two terms: the transform of their distance.\<close>

definition sim_of :: "godag \<Rightarrow> string \<Rightarrow> string \<Rightarrow> real" where
  "sim_of g a b = sim_val (go_distance g a b)"

text \<open>
  The best match of the spec for a term \<open>a\<close>: present only when the largest similarity over
  \<open>setB\<close> is positive; the partner is the first term of \<open>setB\<close>, in iteration order, whose
  similarity is that maximum.
\<close>

definition best_match :: "godag \<Rightarrow> string list \<Rightarrow> string \<Rightarrow> sim_pair option" where
  "best_match g setB a =
     (if setB \<noteq> [] \<and> 0 < Max (sim_of g a ` set setB)
      then map_option (\<lambda>b. (a, b, sim_of g a b))
             (find (\<lambda>b. sim_of g a b = Max (sim_of g a ` set setB)) setB)
      else None)"

text \<open>The recorded pairs of the spec: the best matches of the terms of \<open>setA\<close>, in iteration order.\<close>

definition recorded_pairs :: "godag \<Rightarrow> string list \<Rightarrow> string list \<Rightarrow> sim_pair list" where
  "recorded_pairs g setA setB = List.map_filter (best_match g setB) setA"

text \<open>The arithmetic mean of the scores of a list of pairs, 0 for the empty list.\<close>

definition mean_score :: "sim_pair list \<Rightarrow> real" where
  "mean_score scores =
     (if scores = [] then 0 else sum_list (map (\<lambda>(a, b, s). s) scores) / real (length scores))"

text \<open>
  The high-confidence intersection as the spec words it: the terms of the exact intersection
  whose source score is at least a given threshold.
\<close>

definition high_confidence_spec :: "(string \<times> real) list \<Rightarrow> string set \<Rightarrow> real \<Rightarrow> string set" where
  "high_confidence_spec df_go common_set confidence_threshold =
     {go \<in> common_set.
        case map_of df_go go of Some score \<Rightarrow> confidence_threshold \<le> score | None \<Rightarrow> False}"

text \<open>The Jaccard index of the spec: intersection size over union size, 0 for an empty union.\<close>

definition jaccard_spec :: "string set \<Rightarrow> string set \<Rightarrow> real" where
  "jaccard_spec A B = (if A \<union> B = {} then 0 else real (card (A \<inter> B)) / real (card (A \<union> B)))"

section \<open>Termination and correctness of the search\<close>

lemmas synthetic_defs = synthetic_dag_def syn_R_def syn_X_def syn_Y_def syn_Z_def

lemma visit_parents_shape:
  "\<exists>new. visit_parents ps step queue seen = (queue @ map (\<lambda>p. (p, Suc step)) new, seen \<union> set ps)
     \<and> distinct new \<and> set new = set ps - seen"
proof (induction ps arbitrary: queue seen)
  case Nil
  show ?case by simp
next
  case (Cons p ps)
  show ?case
  proof (cases "p \<in> seen")
    case True
    from Cons.IH[of queue seen] obtain new where
      "visit_parents ps step queue seen = (queue @ map (\<lambda>p. (p, Suc step)) new, seen \<union> set ps)"
      "distinct new" "set new = set ps - seen" by blast
    with True show ?thesis by (intro exI[of _ new]) auto
  next
    case False
    from Cons.IH[of "queue @ [(p, step + 1)]" "insert p seen"] obtain new where
      n: "visit_parents ps step (queue @ [(p, step + 1)]) (insert p seen)
          = ((queue @ [(p, step + 1)]) @ map (\<lambda>p. (p, Suc step)) new, insert p seen \<union> set ps)"
      "distinct new" "set new = set ps - insert p seen" by blast
    with False show ?thesis by (intro exI[of _ "p # new"]) auto
  qed
qed

lemma map_of_parent_ids:
  "map_of g k = Some node \<Longrightarrow> item_id ` set (parents node) \<subseteq> parent_ids g"
  by (auto simp: parent_ids_def dest!: map_of_SomeD)

lemma finite_parent_ids: "finite (parent_ids g)"
  by (auto simp: parent_ids_def)

termination bfs_loop
proof (relation "inv_image (less_than <*lex*> less_than)
          (\<lambda>(g, T, q, seen). (card (parent_ids g - seen), length q))", goal_cases)
  case 1
  show ?case by (intro wf_inv_image wf_lex_prod wf_less_than)
next
  case (2 g target_set cur step queue seen)
  then show ?case by simp
next
  case (3 g target_set cur step queue seen node queue' seen')
  from visit_parents_shape[of "map item_id (parents node)" step queue seen] 3(3)
  obtain new where n: "queue' = queue @ map (\<lambda>p. (p, Suc step)) new"
    "seen' = seen \<union> set (map item_id (parents node))"
    "set new = set (map item_id (parents node)) - seen"
    by auto
  have sub: "set (map item_id (parents node)) \<subseteq> parent_ids g"
    using map_of_parent_ids[OF 3(2)] by simp
  show ?case
  proof (cases "new = []")
    case True
    with n have "seen' = seen" "queue' = queue" by auto
    then show ?thesis by simp
  next
    case False
    then obtain p where p: "p \<in> set new" by (cases new) auto
    with n sub have "p \<in> parent_ids g - seen" "p \<notin> parent_ids g - seen'" by auto
    moreover have "parent_ids g - seen' \<subseteq> parent_ids g - seen" using n by auto
    ultimately have "parent_ids g - seen' \<subset> parent_ids g - seen" by blast
    then have "card (parent_ids g - seen') < card (parent_ids g - seen)"
      by (intro psubset_card_mono) (simp_all add: finite_parent_ids)
    then show ?thesis by simp
  qed
qed

lemma bfs_inv_init: "bfs_inv g s T [(s, 0)] {s}"
  by (simp add: bfs_inv_def)

lemma sorted_hd_min: "sorted (map snd q) \<Longrightarrow> (v, k) \<in> set q \<Longrightarrow> snd (hd q) \<le> k"
  by (cases q) auto

lemma bfs_inv_empty:
  assumes "bfs_inv g s T [] seen" and "(s, v) \<in> (parent_edges g)\<^sup>*"
  shows "v \<in> seen \<and> v \<notin> T"
  using assms(2)
proof (induction rule: rtrancl_induct)
  case base
  from assms(1) show ?case by (simp add: bfs_inv_def)
next
  case (step y z)
  with assms(1) show ?case by (auto simp: bfs_inv_def)
qed

lemma bfs_inv_hit:
  assumes inv: "bfs_inv g s T ((cur, step) # q) seen" and hit: "cur \<in> T"
  shows "(\<exists>t\<in>T. (s, t) \<in> (parent_edges g)\<^sup>*) \<and> (LEAST n. \<exists>t\<in>T. (s, t) \<in> parent_edges g ^^ n) = step"
proof -
  from inv have lab: "(s, cur) \<in> parent_edges g ^^ step"
    and early: "\<And>v j. (s, v) \<in> parent_edges g ^^ j \<Longrightarrow> j < step \<Longrightarrow> v \<in> seen - insert cur (fst ` set q)"
    and closed: "\<And>u. u \<in> seen - insert cur (fst ` set q) \<Longrightarrow> u \<notin> T"
    by (auto simp: bfs_inv_def)
  have "(LEAST n. \<exists>t\<in>T. (s, t) \<in> parent_edges g ^^ n) = step"
  proof (rule Least_equality)
    show "\<exists>t\<in>T. (s, t) \<in> parent_edges g ^^ step" using lab hit by blast
  next
    fix j assume "\<exists>t\<in>T. (s, t) \<in> parent_edges g ^^ j"
    then obtain t where t: "t \<in> T" "(s, t) \<in> parent_edges g ^^ j" by blast
    show "step \<le> j"
    proof (rule ccontr)
      assume "\<not> step \<le> j"
      then have "j < step" by simp
      from early[OF t(2) this] closed t(1) show False by blast
    qed
  qed
  moreover have "(s, cur) \<in> (parent_edges g)\<^sup>*" using lab by (rule relpow_imp_rtrancl)
  ultimately show ?thesis using hit by blast
qed

lemma bfs_inv_step:
  assumes inv: "bfs_inv g s T ((cur, step) # q) seen"
    and nt: "cur \<notin> T"
    and succ: "parent_edges g `` {cur} = set ps"
    and vp: "visit_parents ps step q seen = (q', seen')"
  shows "bfs_inv g s T q' seen'"
proof -
  let ?E = "parent_edges g"
  from visit_parents_shape[of ps step q seen] vp obtain new where
    q': "q' = q @ map (\<lambda>p. (p, Suc step)) new" and seen': "seen' = seen \<union> set ps"
    and dn: "distinct new" and sn: "set new = set ps - seen" by auto
  from inv have s_seen: "s \<in> seen" by (simp add: bfs_inv_def)
  from inv have cur_seen: "cur \<in> seen" and q_seen: "fst ` set q \<subseteq> seen"
    by (auto simp: bfs_inv_def)
  from inv have cur_q: "cur \<notin> fst ` set q" and dq: "distinct (map fst q)"
    by (auto simp: bfs_inv_def)
  from inv have closed: "\<And>u. u \<in> seen \<Longrightarrow> u \<noteq> cur \<Longrightarrow> u \<notin> fst ` set q \<Longrightarrow> u \<notin> T \<and> ?E `` {u} \<subseteq> seen"
    unfolding bfs_inv_def by auto
  from inv have cur_lab: "(s, cur) \<in> ?E ^^ step"
    by (simp add: bfs_inv_def)
  from inv have q_lab: "\<And>v k. (v, k) \<in> set q \<Longrightarrow> (s, v) \<in> ?E ^^ k \<and> (\<forall>j<k. (s, v) \<notin> ?E ^^ j)"
    unfolding bfs_inv_def by auto
  from inv have srt: "sorted (map snd q)" and lo: "\<And>v k. (v, k) \<in> set q \<Longrightarrow> step \<le> k"
    and hi: "\<And>v k. (v, k) \<in> set q \<Longrightarrow> k \<le> Suc step"
    unfolding bfs_inv_def by auto
  from inv have early: "\<And>v j. (s, v) \<in> ?E ^^ j \<Longrightarrow> j < step \<Longrightarrow> v \<in> seen \<and> v \<noteq> cur \<and> v \<notin> fst ` set q"
    unfolding bfs_inv_def by auto
  have fst_q': "fst ` set q' = fst ` set q \<union> set new"
    by (auto simp: q' image_Un image_image)
  have new_seen: "set new \<inter> seen = {}" using sn by auto
  have i1: "s \<in> seen'" using s_seen seen' by simp
  have i2: "fst ` set q' \<subseteq> seen'" using q_seen sn seen' fst_q' by auto
  have "map fst q' = map fst q @ new" by (simp add: q' comp_def)
  then have i3: "distinct (map fst q')" using dq dn new_seen q_seen by auto
  have processed: "seen' - fst ` set q' = insert cur (seen - insert cur (fst ` set q))"
    using fst_q' seen' sn cur_seen cur_q new_seen by auto
  have i4: "\<forall>u \<in> seen' - fst ` set q'. u \<notin> T \<and> ?E `` {u} \<subseteq> seen'"
  proof
    fix u assume "u \<in> seen' - fst ` set q'"
    then consider "u = cur" | "u \<in> seen" "u \<noteq> cur" "u \<notin> fst ` set q"
      unfolding processed by blast
    then show "u \<notin> T \<and> ?E `` {u} \<subseteq> seen'"
    proof cases
      case 1
      then show ?thesis using nt succ seen' by auto
    next
      case 2
      from closed[OF 2] show ?thesis using seen' by auto
    qed
  qed
  have fresh: "(s, p) \<notin> ?E ^^ j" if p: "p \<in> set new" and j: "j < Suc step" for p j
  proof
    assume path: "(s, p) \<in> ?E ^^ j"
    show False
    proof (cases j)
      case 0
      with path have "p = s" by simp
      with s_seen p new_seen show False by auto
    next
      case (Suc i)
      with path obtain u where u: "(s, u) \<in> ?E ^^ i" "(u, p) \<in> ?E" by auto
      from Suc j have "i < step" by simp
      from early[OF u(1) this] have "u \<in> seen" "u \<noteq> cur" "u \<notin> fst ` set q" by auto
      from closed[OF this] u(2) have "p \<in> seen" by auto
      with p new_seen show False by auto
    qed
  qed
  have i5: "\<forall>(v, k) \<in> set q'. (s, v) \<in> ?E ^^ k \<and> (\<forall>j<k. (s, v) \<notin> ?E ^^ j)"
  proof (clarify, rule conjI)
    fix v k assume vk: "(v, k) \<in> set q'"
    then consider "(v, k) \<in> set q" | "v \<in> set new" "k = Suc step" by (auto simp: q')
    then show "(s, v) \<in> ?E ^^ k"
    proof cases
      case 1 then show ?thesis using q_lab by blast
    next
      case 2
      then have "(cur, v) \<in> ?E" using sn succ by auto
      with cur_lab 2 show ?thesis by auto
    qed
    from vk consider "(v, k) \<in> set q" | "v \<in> set new" "k = Suc step" by (auto simp: q')
    then show "\<forall>j<k. (s, v) \<notin> ?E ^^ j"
    proof cases
      case 1 then show ?thesis using q_lab by blast
    next
      case 2 then show ?thesis using fresh by blast
    qed
  qed
  have "map snd q' = map snd q @ map (\<lambda>p. Suc step) new" by (simp add: q' comp_def)
  moreover have "sorted (map (\<lambda>p. Suc step) new)" by (simp add: map_replicate_const)
  ultimately have i6: "sorted (map snd q')"
    using srt hi by (auto simp: sorted_append)
  have lab_q': "step \<le> k \<and> k \<le> Suc step" if "(v, k) \<in> set q'" for v k
    using that lo hi by (auto simp: q')
  have hd_q': "q' \<noteq> [] \<Longrightarrow> hd q' \<in> set q'" by simp
  have i7: "\<forall>(v, k) \<in> set q'. k \<le> Suc (snd (hd q'))"
  proof clarify
    fix v k assume vk: "(v, k) \<in> set q'"
    then have "q' \<noteq> []" by auto
    from hd_q'[OF this] have "step \<le> snd (hd q')" using lab_q'[of "fst (hd q')" "snd (hd q')"] by simp
    with lab_q'[OF vk] show "k \<le> Suc (snd (hd q'))" by simp
  qed
  have i8: "q' \<noteq> [] \<longrightarrow> (\<forall>v j. (s, v) \<in> ?E ^^ j \<longrightarrow> j < snd (hd q') \<longrightarrow> v \<in> seen' - fst ` set q')"
  proof (intro impI allI)
    fix v j assume ne: "q' \<noteq> []" and path: "(s, v) \<in> ?E ^^ j" and j: "j < snd (hd q')"
    from hd_q'[OF ne] have hd_hi: "snd (hd q') \<le> Suc step"
      using lab_q'[of "fst (hd q')" "snd (hd q')"] by simp
    show "v \<in> seen' - fst ` set q'"
    proof (cases "j < step")
      case True
      from early[OF path True] show ?thesis unfolding processed by auto
    next
      case False
      with j hd_hi have js: "j = step" and hd_eq: "snd (hd q') = Suc step" by auto
      have v_seen: "v \<in> seen"
      proof (cases step)
        case 0
        with path js have "v = s" by simp
        with s_seen show ?thesis by simp
      next
        case (Suc i)
        with path js obtain u where u: "(s, u) \<in> ?E ^^ i" "(u, v) \<in> ?E" by auto
        from Suc have "i < step" by simp
        from early[OF u(1) this] have "u \<in> seen" "u \<noteq> cur" "u \<notin> fst ` set q" by auto
        from closed[OF this] u(2) show ?thesis by auto
      qed
      have "v \<notin> fst ` set q"
      proof
        assume "v \<in> fst ` set q"
        then obtain k where vk: "(v, k) \<in> set q" by auto
        then have "(v, k) \<in> set q'" by (simp add: q')
        from sorted_hd_min[OF i6 this] hd_eq have "step < k" by simp
        with q_lab[OF vk] path js show False by blast
      qed
      with v_seen show ?thesis unfolding processed by auto
    qed
  qed
  show ?thesis
    unfolding bfs_inv_def using i1 i2 i3 i4 i5 i6 i7 i8 by blast
qed

lemma parent_edges_unresolved: "map_of g u = None \<Longrightarrow> parent_edges g `` {u} = {}"
  by (auto simp: parent_edges_def)

lemma parent_edges_resolved:
  "map_of g u = Some node \<Longrightarrow> parent_edges g `` {u} = set (map item_id (parents node))"
  by (auto simp: parent_edges_def)

lemma bfs_loop_correct:
  "bfs_inv g s T q seen \<Longrightarrow>
   bfs_loop g T q seen =
     (if \<exists>t\<in>T. (s, t) \<in> (parent_edges g)\<^sup>*
      then Some (LEAST n. \<exists>t\<in>T. (s, t) \<in> parent_edges g ^^ n) else None)"
proof (induction g T q seen rule: bfs_loop.induct)
  case (1 g T seen)
  from bfs_inv_empty[OF 1] show ?case by auto
next
  case (2 g T cur step q seen)
  show ?case
  proof (cases "cur \<in> T")
    case True
    from bfs_inv_hit[OF "2.prems" True] True show ?thesis by simp
  next
    case False
    show ?thesis
    proof (cases "map_of g cur")
      case None
      have "visit_parents [] step q seen = (q, seen)" by simp
      from bfs_inv_step[OF "2.prems" False _ this] parent_edges_unresolved[OF None]
      have "bfs_inv g s T q seen" by simp
      from "2.IH"(1)[OF False None this] False None show ?thesis by simp
    next
      case (Some node)
      obtain q' seen' where vp: "visit_parents (map item_id (parents node)) step q seen = (q', seen')"
        by (cases "visit_parents (map item_id (parents node)) step q seen") auto
      from bfs_inv_step[OF "2.prems" False parent_edges_resolved[OF Some] vp]
      have "bfs_inv g s T q' seen'" .
      from "2.IH"(2)[OF False Some vp[symmetric] this] False Some vp show ?thesis by simp
    qed
  qed
qed

lemma min_steps_correct:
  "min_steps g s {c} =
     (if (s, c) \<in> (parent_edges g)\<^sup>* then Some (steps g s c) else None)"
  unfolding min_steps_def steps_def
  using bfs_loop_correct[OF bfs_inv_init[of g s "{c}"]] by simp

lemma get_all_parents_trancl:
  "wf_godag g \<Longrightarrow> map_of g k = Some n \<Longrightarrow>
   set (get_all_parents n) = {v. (k, v) \<in> (parent_edges g)\<^sup>+}"
proof (induction n arbitrary: k)
  case (GOTerm i ps)
  let ?E = "parent_edges g"
  have res: "map_of g (item_id p) = Some p" if "p \<in> set ps" for p
    using GOTerm.prems that map_of_SomeD[OF GOTerm.prems(2)]
    unfolding wf_godag_def by fastforce
  have ih: "set (get_all_parents p) = {v. (item_id p, v) \<in> ?E\<^sup>+}" if "p \<in> set ps" for p
    using GOTerm.IH[OF that GOTerm.prems(1) res[OF that]] .
  have succ: "?E `` {k} = item_id ` set ps"
    using parent_edges_resolved[OF GOTerm.prems(2)] by simp
  have "set (get_all_parents (GOTerm i ps)) = (\<Union>p\<in>set ps. insert (item_id p) {v. (item_id p, v) \<in> ?E\<^sup>+})"
    using ih by auto
  also have "\<dots> = (\<Union>w\<in>?E `` {k}. {v. (w, v) \<in> ?E\<^sup>*})"
    unfolding succ by (auto simp: rtrancl_eq_or_trancl)
  also have "\<dots> = {v. (k, v) \<in> ?E\<^sup>+}"
    by (auto intro: rtrancl_into_trancl2 dest: tranclD)
  finally show ?case .
qed

lemma ancestor_closure_code:
  assumes "wf_godag g" "map_of g t = Some a"
  shows "ancestor_closure g t = set (t # get_all_parents a)"
  using get_all_parents_trancl[OF assms]
  by (auto simp: ancestor_closure_def rtrancl_eq_or_trancl)

lemma best_over_None:
  "best_over g t1 t2 cas best = None \<longleftrightarrow>
   best = None \<and> (\<forall>ca\<in>set cas. path_sum g t1 t2 ca = None)"
  by (induction cas arbitrary: best)
     (auto simp: path_sum_def Let_def split: option.splits)

lemma best_over_Some:
  "best_over g t1 t2 cas best = Some m \<Longrightarrow>
   (best = Some m \<or> (\<exists>ca\<in>set cas. path_sum g t1 t2 ca = Some m)) \<and>
   (\<forall>n. best = Some n \<longrightarrow> m \<le> n) \<and>
   (\<forall>ca\<in>set cas. \<forall>n. path_sum g t1 t2 ca = Some n \<longrightarrow> m \<le> n)"
proof (induction cas arbitrary: best)
  case Nil
  then show ?case by simp
next
  case (Cons ca cas)
  let ?b = "case (min_steps g t1 {ca}, min_steps g t2 {ca}) of
              (Some x, Some y) \<Rightarrow>
                (case best of Some m \<Rightarrow> Some (min m (x + y)) | None \<Rightarrow> Some (x + y))
            | _ \<Rightarrow> best"
  from Cons.prems have "best_over g t1 t2 cas ?b = Some m" by (simp add: Let_def)
  from Cons.IH[OF this] show ?case
    by (auto simp: path_sum_def split: option.splits prod.splits)
qed

lemma best_over_Min:
  assumes "\<exists>ca\<in>set cas. path_sum g t1 t2 ca \<noteq> None"
  shows "best_over g t1 t2 cas None =
         Some (Min {n. \<exists>ca\<in>set cas. path_sum g t1 t2 ca = Some n})"
proof -
  let ?S = "{n. \<exists>ca\<in>set cas. path_sum g t1 t2 ca = Some n}"
  have "?S \<subseteq> (\<lambda>ca. the (path_sum g t1 t2 ca)) ` set cas" by force
  then have fin: "finite ?S" by (rule finite_subset) simp
  from assms best_over_None[of g t1 t2 cas None]
  obtain m where m: "best_over g t1 t2 cas None = Some m" by (cases "best_over g t1 t2 cas None") auto
  from best_over_Some[OF m] have "m \<in> ?S" "\<forall>n\<in>?S. m \<le> n" by auto
  with fin have "Min ?S = m" by (intro Min_eqI) auto
  with m show ?thesis by simp
qed

text \<open>
  The loop over \<^verbatim>\<open>common\<close> gives the same result in whatever order the set is iterated, so
  fixing one order in \<open>go_distance\<close> loses nothing.
\<close>

lemma best_over_order:
  assumes "set cas = set cas'"
  shows "best_over g t1 t2 cas None = best_over g t1 t2 cas' None"
proof (cases "\<exists>ca\<in>set cas. path_sum g t1 t2 ca \<noteq> None")
  case True
  with assms have "\<exists>ca\<in>set cas'. path_sum g t1 t2 ca \<noteq> None" by simp
  from best_over_Min[OF True] best_over_Min[OF this] assms show ?thesis by simp
next
  case False
  with assms have "\<not> (\<exists>ca\<in>set cas'. path_sum g t1 t2 ca \<noteq> None)" by simp
  with False have "best_over g t1 t2 cas None = None" "best_over g t1 t2 cas' None = None"
    by (simp_all add: best_over_None)
  then show ?thesis by simp
qed

lemma path_sum_commute: "path_sum g t1 t2 ca = path_sum g t2 t1 ca"
  by (auto simp: path_sum_def split: option.splits)

lemma go_distance_unfold:
  assumes "t1 \<noteq> t2" "map_of g t1 = Some a" "map_of g t2 = Some b"
  shows "go_distance g t1 t2 =
     (let C = set (t1 # get_all_parents a) \<inter> set (t2 # get_all_parents b) in
      if \<forall>ca\<in>C. path_sum g t1 t2 ca = None then None
      else Some (Min {n. \<exists>ca\<in>C. path_sum g t1 t2 ca = Some n}))"
proof -
  let ?cs = "remdups (filter (\<lambda>c. c \<in> set (t2 # get_all_parents b)) (t1 # get_all_parents a))"
  have set_cs: "set ?cs = set (t1 # get_all_parents a) \<inter> set (t2 # get_all_parents b)" by auto
  have gd: "go_distance g t1 t2 = (if ?cs = [] then None else best_over g t1 t2 ?cs None)"
    using assms by (simp add: go_distance_def Let_def)
  show ?thesis
  proof (cases "\<forall>ca\<in>set ?cs. path_sum g t1 t2 ca = None")
    case True
    then have "best_over g t1 t2 ?cs None = None" by (simp add: best_over_None)
    with True gd show ?thesis unfolding Let_def set_cs[symmetric] by simp
  next
    case False
    then have ne: "?cs \<noteq> []" by auto
    from False have "\<exists>ca\<in>set ?cs. path_sum g t1 t2 ca \<noteq> None" by blast
    from best_over_Min[OF this] False gd ne show ?thesis
      unfolding Let_def set_cs[symmetric] by simp
  qed
qed

lemma path_sum_common:
  assumes "c \<in> ancestor_closure g t1" "c \<in> ancestor_closure g t2"
  shows "path_sum g t1 t2 c = Some (steps g t1 c + steps g t2 c)"
  using assms by (simp add: path_sum_def min_steps_correct ancestor_closure_def)

section \<open>The scorer and the report computed by the code\<close>

lemma similarity_Inr: "similarity d = Inr (sim_val d)"
  by (cases d) (auto simp: similarity_def sim_val_def truediv_def add_nonneg_eq_0_iff)

lemma scan_setB_spec:
  "scan_setB g a bs best pair =
     Inr (if \<exists>b\<in>set bs. best < sim_of g a b
          then (Max (sim_of g a ` set bs),
                (a, the (find (\<lambda>b. sim_of g a b = Max (sim_of g a ` set bs)) bs),
                 Max (sim_of g a ` set bs)))
          else (best, pair))"
proof (induction bs arbitrary: best pair)
  case Nil
  show ?case by simp
next
  case (Cons b bs)
  let ?f = "sim_of g a"
  show ?case
  proof (cases "best < ?f b")
    case True
    show ?thesis
    proof (cases "\<exists>b'\<in>set bs. ?f b < ?f b'")
      case ex: True
      then have ne: "bs \<noteq> []" by auto
      from ex have lt: "?f b < Max (?f ` set bs)" by (subst Max_gr_iff) (use ne in auto)
      then have "Max (?f ` set (b # bs)) = Max (?f ` set bs)"
        using ne by (simp add: max_def)
      with True ex lt show ?thesis
        by (simp add: similarity_Inr sim_of_def[symmetric] Cons.IH del: Max_less_iff Max_gr_iff)
    next
      case nex: False
      then have "Max (?f ` set (b # bs)) = ?f b"
        by (intro Max_eqI) (auto simp: not_less)
      with True nex show ?thesis
        by (simp add: similarity_Inr sim_of_def[symmetric] Cons.IH)
    qed
  next
    case False
    show ?thesis
    proof (cases "\<exists>b'\<in>set bs. best < ?f b'")
      case ex: True
      then have ne: "bs \<noteq> []" by auto
      from ex have "best < Max (?f ` set bs)" by (subst Max_gr_iff) (use ne in auto)
      with False have lt: "?f b < Max (?f ` set bs)" by simp
      then have "Max (?f ` set (b # bs)) = Max (?f ` set bs)"
        using ne by (simp add: max_def)
      with False ex lt show ?thesis
        by (simp add: similarity_Inr sim_of_def[symmetric] Cons.IH del: Max_less_iff Max_gr_iff)
    next
      case nex: False
      with False show ?thesis
        by (simp add: similarity_Inr sim_of_def[symmetric] Cons.IH)
    qed
  qed
qed

lemma find_Max_Some:
  assumes "bs \<noteq> []"
  shows "\<exists>b. find (\<lambda>b. f b = Max (f ` set bs)) bs = Some b \<and> f b = Max (f ` set bs)"
proof -
  have "Max (f ` set bs) \<in> f ` set bs" using assms by (intro Max_in) auto
  then obtain b where "b \<in> set bs" "f b = Max (f ` set bs)" by auto
  then have "find (\<lambda>b. f b = Max (f ` set bs)) bs \<noteq> None" by (auto simp: find_None_iff)
  then obtain b' where b': "find (\<lambda>b. f b = Max (f ` set bs)) bs = Some b'" by auto
  then have "f b' = Max (f ` set bs)" by (auto simp: find_Some_iff)
  with b' show ?thesis by blast
qed

lemma scan_setB_best_match:
  "scan_setB g a setB 0 (a, [], 0) =
     Inr (case best_match g setB a of
            Some (a', b, s) \<Rightarrow> (s, (a', b, s))
          | None \<Rightarrow> (0, (a, [], 0)))
   \<and> (\<forall>a' b s. best_match g setB a = Some (a', b, s) \<longrightarrow> 0 < s)"
proof (cases "\<exists>b\<in>set setB. 0 < sim_of g a b")
  case True
  then have ne: "setB \<noteq> []" by auto
  from True have pos: "0 < Max (sim_of g a ` set setB)" by (subst Max_gr_iff) (use ne in auto)
  from find_Max_Some[OF ne, of "sim_of g a"] obtain b where
    b: "find (\<lambda>b. sim_of g a b = Max (sim_of g a ` set setB)) setB = Some b"
       "sim_of g a b = Max (sim_of g a ` set setB)" by blast
  from ne pos b have "best_match g setB a = Some (a, b, Max (sim_of g a ` set setB))"
    by (simp add: best_match_def)
  with True b pos show ?thesis by (simp add: scan_setB_spec)
next
  case False
  have "best_match g setB a = None"
  proof (cases "setB = []")
    case True
    then show ?thesis by (simp add: best_match_def)
  next
    case ne: False
    from False have "\<not> 0 < Max (sim_of g a ` set setB)" by (subst Max_gr_iff) (use ne in auto)
    then show ?thesis by (simp add: best_match_def)
  qed
  with False show ?thesis by (simp add: scan_setB_spec)
qed

lemma collect_scores_spec:
  "collect_scores g setA setB scores = Inr (scores @ List.map_filter (best_match g setB) setA)"
proof (induction setA arbitrary: scores)
  case Nil
  show ?case by (simp add: List.map_filter_simps)
next
  case (Cons a as)
  show ?case
  proof (cases "best_match g setB a")
    case None
    with scan_setB_best_match[of g a setB] show ?thesis
      by (simp add: Cons.IH List.map_filter_simps)
  next
    case (Some p)
    obtain a' b s where p: "p = (a', b, s)" by (cases p) auto
    with Some scan_setB_best_match[of g a setB] have "0 < s" by blast
    with Some p scan_setB_best_match[of g a setB] show ?thesis
      by (simp add: Cons.IH List.map_filter_simps)
  qed
qed

lemma semantic_pairs_spec:
  "semantic_pairs g setA setB thr =
     Inr (mean_score (recorded_pairs g setA setB),
          filter (\<lambda>(a, b, s). thr \<le> s) (recorded_pairs g setA setB))"
  by (simp add: semantic_pairs_def collect_scores_spec recorded_pairs_def mean_score_def truediv_def)

lemma high_conf_spec:
  "set gos \<subseteq> fst ` set df_go \<Longrightarrow>
   high_conf df_go gos = Inr (high_confidence_spec df_go (set gos) (8 / 10))"
proof (induction gos)
  case Nil
  show ?case by (simp add: high_confidence_spec_def)
next
  case (Cons go gos)
  then have "map_of df_go go \<noteq> None" by (simp add: map_of_eq_None_iff)
  then obtain score where sc: "map_of df_go go = Some score" by auto
  from Cons have "high_conf df_go gos = Inr (high_confidence_spec df_go (set gos) (8 / 10))" by simp
  with sc show ?case by (auto simp: high_confidence_spec_def)
qed

lemma analyze_pdb_spec:
  "analyze_pdb g ipro_go df_go thr =
     Inr \<lparr> interpro_count = card (set ipro_go),
           deepfri_count = card (fst ` set df_go),
           common = set ipro_go \<inter> fst ` set df_go,
           common_count = card (set ipro_go \<inter> fst ` set df_go),
           high_confidence_common =
             high_confidence_spec df_go (set ipro_go \<inter> fst ` set df_go) (8 / 10),
           high_confidence_count =
             card (high_confidence_spec df_go (set ipro_go \<inter> fst ` set df_go) (8 / 10)),
           interpro_only = set ipro_go - fst ` set df_go,
           interpro_only_count = card (set ipro_go - fst ` set df_go),
           deepfri_only = fst ` set df_go - set ipro_go,
           deepfri_only_count = card (fst ` set df_go - set ipro_go),
           jaccard = jaccard_spec (set ipro_go) (fst ` set df_go),
           deepfri_scores = df_go,
           semantic_avg_sim = mean_score (recorded_pairs g ipro_go (map fst df_go)),
           sem_pairs = filter (\<lambda>(a, b, s). thr \<le> s) (recorded_pairs g ipro_go (map fst df_go)),
           semantic_pairs_count =
             length (filter (\<lambda>(a, b, s). thr \<le> s) (recorded_pairs g ipro_go (map fst df_go))) \<rparr>"
proof -
  let ?cl = "filter (\<lambda>t. t \<in> set (map fst df_go)) (remdups ipro_go)"
  have cl: "set ?cl = set ipro_go \<inter> fst ` set df_go" by auto
  have hc: "high_conf df_go ?cl = Inr (high_confidence_spec df_go (set ipro_go \<inter> fst ` set df_go) (8 / 10))"
    using high_conf_spec[of ?cl df_go] unfolding cl by simp
  have jac: "(if set ipro_go \<union> set (map fst df_go) \<noteq> {}
              then truediv (real (card (set ?cl))) (real (card (set ipro_go \<union> set (map fst df_go))))
              else Inr 0) = Inr (jaccard_spec (set ipro_go) (fst ` set df_go))"
    unfolding cl by (auto simp: truediv_def jaccard_spec_def)
  show ?thesis
    unfolding analyze_pdb_def Let_def jac hc semantic_pairs_spec
    by (simp add: Int_def)
qed

lemmas eval_defs = go_distance_def synthetic_defs min_steps_def similarity_def truediv_def

lemma recorded_pairs_positive:
  assumes "(a, b, s) \<in> set (recorded_pairs g setA setB)"
  shows "0 < s"
proof -
  from assms obtain x where "best_match g setB x = Some (a, b, s)"
    by (auto simp: recorded_pairs_def List.map_filter_def)
  with scan_setB_best_match[of g x setB] show ?thesis by blast
qed

lemma mset_map_filter:
  "mset xs = mset ys \<Longrightarrow> mset (List.map_filter f xs) = mset (List.map_filter f ys)"
proof -
  assume eq: "mset xs = mset ys"
  have "mset (List.map_filter f zs) = image_mset (the \<circ> f) (filter_mset (\<lambda>x. f x \<noteq> None) (mset zs))" for zs
    by (simp add: List.map_filter_def)
  with eq show ?thesis by simp
qed

lemma analyze_pdb_fields:
  obtains r where "analyze_pdb g ipro_go df_go thr = Inr r"
    and "interpro_count r = card (set ipro_go)"
    and "deepfri_count r = card (fst ` set df_go)"
    and "common r = set ipro_go \<inter> fst ` set df_go"
    and "common_count r = card (set ipro_go \<inter> fst ` set df_go)"
    and "high_confidence_common r = high_confidence_spec df_go (set ipro_go \<inter> fst ` set df_go) (8 / 10)"
    and "high_confidence_count r = card (high_confidence_spec df_go (set ipro_go \<inter> fst ` set df_go) (8 / 10))"
    and "interpro_only r = set ipro_go - fst ` set df_go"
    and "interpro_only_count r = card (set ipro_go - fst ` set df_go)"
    and "deepfri_only r = fst ` set df_go - set ipro_go"
    and "deepfri_only_count r = card (fst ` set df_go - set ipro_go)"
    and "semantic_pairs_count r = length (sem_pairs r)"
  by (rule that[OF analyze_pdb_spec]) simp_all

lemma recorded_pairs_eval:
  "collect_scores g setA setB [] = Inr ps \<Longrightarrow> recorded_pairs g setA setB = ps"
  by (simp add: collect_scores_spec recorded_pairs_def)

section \<open>Properties of the distance\<close>

text \<open>
  C7: for every term \<open>t\<close>, whether or not it resolves in the ontology graph, the distance from
  \<open>t\<close> to itself is 0.  The equality test is the first statement of \<^verbatim>\<open>_go_distance\<close>, so the
  result does not depend on the graph and no search is run.
\<close>

theorem go_distance_same: "go_distance g t t = Some 0"
  by (simp add: go_distance_def)

text \<open>
  C6: the distance is symmetric, \<open>distance(t1, t2) = distance(t2, t1)\<close>.  It holds for every
  pair of terms, in particular for every pair that resolves in the graph.
\<close>

theorem go_distance_symmetric: "go_distance g t1 t2 = go_distance g t2 t1"
proof (cases "t1 = t2")
  case True
  then show ?thesis by simp
next
  case False
  show ?thesis
  proof (cases "map_of g t1")
    case None
    with False show ?thesis by (simp add: go_distance_def split: option.splits)
  next
    case a: (Some a)
    show ?thesis
    proof (cases "map_of g t2")
      case None
      with False a show ?thesis by (simp add: go_distance_def)
    next
      case b: (Some b)
      from False have ne: "t2 \<noteq> t1" by simp
      show ?thesis
        unfolding go_distance_unfold[OF False a b] go_distance_unfold[OF ne b a]
        by (simp add: Let_def Int_commute path_sum_commute[of g t2 t1])
    qed
  qed
qed

text \<open>
  C1: in a graph whose dictionary is consistent with its node objects (\<open>wf_godag\<close>), for every
  pair of distinct terms that both resolve and have at least one common ancestor (each term's
  ancestor closure includes the term itself), the distance returned by \<^verbatim>\<open>_go_distance\<close> is the
  minimum, over all common ancestors \<open>c\<close>, of \<open>steps(t1, c) + steps(t2, c)\<close>, where \<open>steps\<close> is
  the least number of parent edges on a path (child edges are not edges of the graph that is
  searched).  On the synthetic graph the distances are \<open>X\<close>-\<open>Y\<close> 2, \<open>Z\<close>-\<open>Y\<close> 3 and \<open>Z\<close>-\<open>X\<close> 1.
\<close>

theorem go_distance_min_over_common_ancestors:
  assumes wf: "wf_godag g" and ne: "t1 \<noteq> t2"
    and a: "map_of g t1 = Some a" and b: "map_of g t2 = Some b"
    and ca: "ancestor_closure g t1 \<inter> ancestor_closure g t2 \<noteq> {}"
  shows "go_distance g t1 t2 =
           Some (Min ((\<lambda>c. steps g t1 c + steps g t2 c) `
                      (ancestor_closure g t1 \<inter> ancestor_closure g t2)))
         \<and> go_distance synthetic_dag ''X'' ''Y'' = Some 2
         \<and> go_distance synthetic_dag ''Z'' ''Y'' = Some 3
         \<and> go_distance synthetic_dag ''Z'' ''X'' = Some 1"
proof -
  let ?CA = "ancestor_closure g t1 \<inter> ancestor_closure g t2"
  have C: "set (t1 # get_all_parents a) \<inter> set (t2 # get_all_parents b) = ?CA"
    using ancestor_closure_code[OF wf a] ancestor_closure_code[OF wf b] by simp
  have S: "{n. \<exists>c\<in>?CA. path_sum g t1 t2 c = Some n} = (\<lambda>c. steps g t1 c + steps g t2 c) ` ?CA"
    by (auto simp: path_sum_common)
  from ca obtain c where "c \<in> ?CA" by blast
  then have "\<not> (\<forall>c\<in>?CA. path_sum g t1 t2 c = None)"
    using path_sum_common[of c g t1 t2] by auto
  then have "go_distance g t1 t2 = Some (Min ((\<lambda>c. steps g t1 c + steps g t2 c) ` ?CA))"
    unfolding go_distance_unfold[OF ne a b] C Let_def S by simp
  moreover have "go_distance synthetic_dag ''X'' ''Y'' = Some 2"
    by (simp add: go_distance_def synthetic_defs min_steps_def)
  moreover have "go_distance synthetic_dag ''Z'' ''Y'' = Some 3"
    by (simp add: go_distance_def synthetic_defs min_steps_def)
  moreover have "go_distance synthetic_dag ''Z'' ''X'' = Some 1"
    by (simp add: go_distance_def synthetic_defs min_steps_def)
  ultimately show ?thesis by blast
qed

text \<open>The theorem at the synthetic graph, for \<open>Z\<close> and \<open>Y\<close>, whose only common ancestor is the root.\<close>

theorem go_distance_min_over_common_ancestors_witness:
  "wf_godag synthetic_dag \<and> ''Z'' \<noteq> ''Y''
   \<and> map_of synthetic_dag ''Z'' = Some syn_Z \<and> map_of synthetic_dag ''Y'' = Some syn_Y
   \<and> ancestor_closure synthetic_dag ''Z'' \<inter> ancestor_closure synthetic_dag ''Y'' = {''R''}
   \<and> go_distance synthetic_dag ''Z'' ''Y'' = Some 3
   \<and> Min ((\<lambda>c. steps synthetic_dag ''Z'' c + steps synthetic_dag ''Y'' c) `
            (ancestor_closure synthetic_dag ''Z'' \<inter> ancestor_closure synthetic_dag ''Y'')) = 3"
proof -
  have wf: "wf_godag synthetic_dag" by (simp add: wf_godag_def synthetic_defs)
  have ne: "''Z'' \<noteq> ''Y''" by simp
  have a: "map_of synthetic_dag ''Z'' = Some syn_Z" by (simp add: synthetic_defs)
  have b: "map_of synthetic_dag ''Y'' = Some syn_Y" by (simp add: synthetic_defs)
  have ca: "ancestor_closure synthetic_dag ''Z'' \<inter> ancestor_closure synthetic_dag ''Y'' = {''R''}"
    unfolding ancestor_closure_code[OF wf a] ancestor_closure_code[OF wf b]
    by (simp add: synthetic_defs)
  then have ne_ca: "ancestor_closure synthetic_dag ''Z'' \<inter> ancestor_closure synthetic_dag ''Y'' \<noteq> {}"
    by simp
  note th = go_distance_min_over_common_ancestors[OF wf ne a b ne_ca]
  from th have e1: "go_distance synthetic_dag ''Z'' ''Y'' =
      Some (Min ((\<lambda>c. steps synthetic_dag ''Z'' c + steps synthetic_dag ''Y'' c) `
            (ancestor_closure synthetic_dag ''Z'' \<inter> ancestor_closure synthetic_dag ''Y'')))"
    by (rule conjunct1)
  from th have e2: "go_distance synthetic_dag ''Z'' ''Y'' = Some 3" by blast
  from e1 e2 have "Min ((\<lambda>c. steps synthetic_dag ''Z'' c + steps synthetic_dag ''Y'' c) `
            (ancestor_closure synthetic_dag ''Z'' \<inter> ancestor_closure synthetic_dag ''Y'')) = 3"
    by (simp only: option.inject)
  with wf ne a b ca e2 show ?thesis by blast
qed

text \<open>
  C4, as stated, fails when the two terms are the same unresolvable identifier: the equality
  test comes before the lookups, so the distance is 0 and the similarity is 1.
\<close>

theorem unresolved_same_term_counterexample:
  "map_of ([] :: godag) ''GO:0000001'' = None
   \<and> go_distance [] ''GO:0000001'' ''GO:0000001'' = Some 0
   \<and> similarity (go_distance [] ''GO:0000001'' ''GO:0000001'') = Inr 1"
  by (simp add: go_distance_def similarity_def truediv_def)

text \<open>
  C4 (amended): for every pair of distinct terms such that either term fails to resolve in the
  graph, or both resolve but their ancestor sets (each including the term itself) share no
  element, the distance is \<^verbatim>\<open>None\<close> (unreachable; the function has no raising statement) and
  the similarity of the pair is 0.
\<close>

theorem go_distance_unreachable:
  assumes "t1 \<noteq> t2"
    and "map_of g t1 = None \<or> map_of g t2 = None \<or>
         (\<exists>a b. map_of g t1 = Some a \<and> map_of g t2 = Some b \<and>
                set (t1 # get_all_parents a) \<inter> set (t2 # get_all_parents b) = {})"
  shows "go_distance g t1 t2 = None \<and> similarity (go_distance g t1 t2) = Inr 0"
proof -
  have "go_distance g t1 t2 = None"
    using assms
    by (auto simp: go_distance_def Let_def filter_empty_conv split: option.splits)
  then show ?thesis by (simp add: similarity_def)
qed

text \<open>The theorem at an unresolvable partner, and at two unrelated roots.\<close>

theorem go_distance_unreachable_witness:
  "''X'' \<noteq> ''Q'' \<and> map_of synthetic_dag ''Q'' = None
   \<and> go_distance synthetic_dag ''X'' ''Q'' = None
   \<and> similarity (go_distance synthetic_dag ''X'' ''Q'') = Inr 0
   \<and> ''A'' \<noteq> ''B''
   \<and> map_of [(''A'', GOTerm ''A'' []), (''B'', GOTerm ''B'' [])] ''A'' = Some (GOTerm ''A'' [])
   \<and> map_of [(''A'', GOTerm ''A'' []), (''B'', GOTerm ''B'' [])] ''B'' = Some (GOTerm ''B'' [])
   \<and> set (''A'' # get_all_parents (GOTerm ''A'' [])) \<inter> set (''B'' # get_all_parents (GOTerm ''B'' [])) = {}
   \<and> go_distance [(''A'', GOTerm ''A'' []), (''B'', GOTerm ''B'' [])] ''A'' ''B'' = None
   \<and> similarity (go_distance [(''A'', GOTerm ''A'' []), (''B'', GOTerm ''B'' [])] ''A'' ''B'') = Inr 0"
proof -
  have 1: "''X'' \<noteq> ''Q''" by simp
  have 2: "map_of synthetic_dag ''Q'' = None" by (simp add: synthetic_defs)
  have 3: "''A'' \<noteq> ''B''" by simp
  let ?g = "[(''A'', GOTerm ''A'' []), (''B'', GOTerm ''B'' [])]"
  have 4: "map_of ?g ''A'' = Some (GOTerm ''A'' [])" "map_of ?g ''B'' = Some (GOTerm ''B'' [])"
    by simp_all
  have 5: "set (''A'' # get_all_parents (GOTerm ''A'' [])) \<inter> set (''B'' # get_all_parents (GOTerm ''B'' [])) = {}"
    by simp
  from go_distance_unreachable[of "''X''" "''Q''" synthetic_dag] 1 2
  have r1: "go_distance synthetic_dag ''X'' ''Q'' = None \<and> similarity (go_distance synthetic_dag ''X'' ''Q'') = Inr 0"
    by blast
  from go_distance_unreachable[of "''A''" "''B''" ?g] 3 4 5
  have r2: "go_distance ?g ''A'' ''B'' = None \<and> similarity (go_distance ?g ''A'' ''B'') = Inr 0"
    by blast
  from 1 2 3 4 5 r1 r2 show ?thesis by blast
qed

section \<open>Properties of the similarity scorer\<close>

text \<open>
  C2: for term sets \<open>setA\<close> and \<open>setB\<close> (given in iteration order), \<^verbatim>\<open>_semantic_pairs\<close> computes
  for each \<open>a\<close> the similarity \<open>1 / (1 + distance(a, b))\<close> against every \<open>b\<close>, 0 when the distance
  is undefined; it keeps for \<open>a\<close> the pair with the maximal similarity, the first-encountered
  \<open>b\<close> winning ties; it records the pair only when that similarity is greater than 0, so every
  recorded score is positive and a term without reachable partner is absent; and the mean
  score it returns is the arithmetic mean of the recorded scores, 0 when nothing is recorded.
\<close>

theorem semantic_pairs_best_match_mean:
  "similarity (go_distance g a b) = Inr (sim_of g a b)
   \<and> collect_scores g setA setB [] = Inr (recorded_pairs g setA setB)
   \<and> (\<forall>(a, b, s) \<in> set (recorded_pairs g setA setB). 0 < s)
   \<and> (\<exists>high. semantic_pairs g setA setB thr =
                 Inr (mean_score (recorded_pairs g setA setB), high))"
proof (intro conjI)
  show "similarity (go_distance g a b) = Inr (sim_of g a b)"
    by (simp add: similarity_Inr sim_of_def)
  show "collect_scores g setA setB [] = Inr (recorded_pairs g setA setB)"
    by (simp add: collect_scores_spec recorded_pairs_def)
  show "\<forall>(a, b, s) \<in> set (recorded_pairs g setA setB). 0 < s"
    using recorded_pairs_positive by blast
  show "\<exists>high. semantic_pairs g setA setB thr =
                 Inr (mean_score (recorded_pairs g setA setB), high)"
    by (simp add: semantic_pairs_spec)
qed

text \<open>
  The theorem on the synthetic graph: \<open>Z\<close> matches \<open>X\<close> (distance 1) rather than \<open>Y\<close>
  (distance 3), the root \<open>R\<close> is equally far from \<open>X\<close> and \<open>Y\<close> and keeps the first, and the
  unknown term \<open>Q\<close> is not recorded.
\<close>

theorem semantic_pairs_best_match_mean_witness:
  "recorded_pairs synthetic_dag [''Z'', ''R'', ''Q''] [''X'', ''Y'']
     = [(''Z'', ''X'', 1 / 2), (''R'', ''X'', 1 / 2)]
   \<and> (''Z'', ''X'', 1 / 2) \<in> set (recorded_pairs synthetic_dag [''Z'', ''R'', ''Q''] [''X'', ''Y''])
   \<and> (0 :: real) < 1 / 2
   \<and> (\<exists>high. semantic_pairs synthetic_dag [''Z'', ''R'', ''Q''] [''X'', ''Y''] (7 / 10)
                 = Inr (1 / 2, high))"
proof -
  note th = semantic_pairs_best_match_mean[of synthetic_dag "''Z''" "''X''"
      "[''Z'', ''R'', ''Q'']" "[''X'', ''Y'']" "7 / 10"]
  have ev: "collect_scores synthetic_dag [''Z'', ''R'', ''Q''] [''X'', ''Y''] []
              = Inr [(''Z'', ''X'', 1 / 2), (''R'', ''X'', 1 / 2)]"
    by (simp add: eval_defs)
  from th have c: "collect_scores synthetic_dag [''Z'', ''R'', ''Q''] [''X'', ''Y''] []
              = Inr (recorded_pairs synthetic_dag [''Z'', ''R'', ''Q''] [''X'', ''Y''])"
    by (rule conjunct1[OF conjunct2])
  from trans[OF c[symmetric] ev]
  have rp: "recorded_pairs synthetic_dag [''Z'', ''R'', ''Q''] [''X'', ''Y'']
     = [(''Z'', ''X'', 1 / 2), (''R'', ''X'', 1 / 2)]" by simp
  from th have pos: "\<forall>(a, b, s) \<in> set (recorded_pairs synthetic_dag [''Z'', ''R'', ''Q''] [''X'', ''Y'']). 0 < s"
    by blast
  from th obtain high where
    "semantic_pairs synthetic_dag [''Z'', ''R'', ''Q''] [''X'', ''Y''] (7 / 10)
       = Inr (mean_score (recorded_pairs synthetic_dag [''Z'', ''R'', ''Q''] [''X'', ''Y'']), high)"
    by blast
  then have "semantic_pairs synthetic_dag [''Z'', ''R'', ''Q''] [''X'', ''Y''] (7 / 10)
       = Inr (1 / 2, high)"
    unfolding rp by (simp add: mean_score_def)
  moreover have "(''Z'', ''X'', 1 / 2) \<in> set (recorded_pairs synthetic_dag [''Z'', ''R'', ''Q''] [''X'', ''Y''])"
    unfolding rp by simp
  moreover from this pos have "(0 :: real) < 1 / 2" by blast
  ultimately show ?thesis using rp by blast
qed

text \<open>
  C8: the list of high-similarity pairs returned by \<^verbatim>\<open>_semantic_pairs\<close> is the recorded
  best-match pairs filtered by \<open>score \<ge> threshold\<close>, in the same order; the boundary is
  inclusive.  With threshold 0.7 a recorded pair of score exactly 0.7 is in the list and no
  pair of score 0.5 is.
\<close>

theorem high_pairs_threshold_inclusive:
  "\<exists>scores avg high.
     collect_scores g setA setB [] = Inr scores \<and>
     semantic_pairs g setA setB thr = Inr (avg, high) \<and>
     high = filter (\<lambda>(a, b, s). thr \<le> s) scores \<and>
     (\<forall>(a, b, s) \<in> set scores. (a, b, s) \<in> set high \<longleftrightarrow> thr \<le> s) \<and>
     (thr = 7 / 10 \<longrightarrow>
        (\<forall>a b. (a, b, 7 / 10) \<in> set scores \<longrightarrow> (a, b, 7 / 10) \<in> set high) \<and>
        (\<forall>a b. (a, b, 1 / 2) \<notin> set high))"
proof -
  let ?scores = "recorded_pairs g setA setB"
  let ?high = "filter (\<lambda>(a, b, s). thr \<le> s) ?scores"
  have 1: "collect_scores g setA setB [] = Inr ?scores"
    by (simp add: collect_scores_spec recorded_pairs_def)
  have 2: "semantic_pairs g setA setB thr = Inr (mean_score ?scores, ?high)"
    by (simp add: semantic_pairs_spec)
  have 3: "\<forall>(a, b, s) \<in> set ?scores. (a, b, s) \<in> set ?high \<longleftrightarrow> thr \<le> s" by auto
  have 4: "thr = 7 / 10 \<longrightarrow>
        (\<forall>a b. (a, b, 7 / 10) \<in> set ?scores \<longrightarrow> (a, b, 7 / 10) \<in> set ?high) \<and>
        (\<forall>a b. (a, b, 1 / 2) \<notin> set ?high)" by auto
  from 1 2 3 4 show ?thesis by blast
qed

text \<open>
  The theorem on the synthetic graph: with threshold 0.5 the pair of score exactly 0.5 is
  kept, with threshold 0.7 it is dropped.
\<close>

theorem high_pairs_threshold_inclusive_witness:
  "(\<exists>avg. semantic_pairs synthetic_dag [''Z'', ''X''] [''X''] (1 / 2)
            = Inr (avg, [(''Z'', ''X'', 1 / 2), (''X'', ''X'', 1)]))
   \<and> (\<exists>avg. semantic_pairs synthetic_dag [''Z'', ''X''] [''X''] (7 / 10)
            = Inr (avg, [(''X'', ''X'', 1)]))"
proof -
  have ev: "collect_scores synthetic_dag [''Z'', ''X''] [''X''] []
              = Inr [(''Z'', ''X'', 1 / 2), (''X'', ''X'', 1)]"
    by (simp add: eval_defs)
  from high_pairs_threshold_inclusive[of synthetic_dag "[''Z'', ''X'']" "[''X'']" "1 / 2"]
  obtain scores avg high where
    a: "collect_scores synthetic_dag [''Z'', ''X''] [''X''] [] = Inr scores"
       "semantic_pairs synthetic_dag [''Z'', ''X''] [''X''] (1 / 2) = Inr (avg, high)"
       "high = filter (\<lambda>(a, b, s). 1 / 2 \<le> s) scores" by blast
  from trans[OF a(1)[symmetric] ev] have "scores = [(''Z'', ''X'', 1 / 2), (''X'', ''X'', 1)]" by simp
  with a(3) have "high = [(''Z'', ''X'', 1 / 2), (''X'', ''X'', 1)]" by simp
  with a(2) have r1: "\<exists>avg. semantic_pairs synthetic_dag [''Z'', ''X''] [''X''] (1 / 2)
            = Inr (avg, [(''Z'', ''X'', 1 / 2), (''X'', ''X'', 1)])" by blast
  from high_pairs_threshold_inclusive[of synthetic_dag "[''Z'', ''X'']" "[''X'']" "7 / 10"]
  obtain scores' avg' high' where
    b: "collect_scores synthetic_dag [''Z'', ''X''] [''X''] [] = Inr scores'"
       "semantic_pairs synthetic_dag [''Z'', ''X''] [''X''] (7 / 10) = Inr (avg', high')"
       "high' = filter (\<lambda>(a, b, s). 7 / 10 \<le> s) scores'" by blast
  from trans[OF b(1)[symmetric] ev] have "scores' = [(''Z'', ''X'', 1 / 2), (''X'', ''X'', 1)]" by simp
  with b(3) have "high' = [(''X'', ''X'', 1)]" by simp
  with b(2) have r2: "\<exists>avg. semantic_pairs synthetic_dag [''Z'', ''X''] [''X''] (7 / 10)
            = Inr (avg, [(''X'', ''X'', 1)])" by blast
  from r1 r2 show ?thesis by blast
qed

section \<open>Properties of the report\<close>

text \<open>
  C5: for every pair of annotation sets \<open>A\<close> (the terms of \<open>ipro_go\<close>) and \<open>B\<close> (the keys of
  \<open>df_go\<close>), \<^verbatim>\<open>analyze_pdb\<close> returns a result (no division raises) whose Jaccard index is
  \<open>|A \<inter> B| / |A \<union> B|\<close>, is 0 when the union is empty, and is 1 when \<open>A = B\<close> is not empty.
\<close>

theorem jaccard_index:
  "\<exists>r. analyze_pdb g ipro_go df_go thr = Inr r \<and>
       jaccard r = (if set ipro_go \<union> fst ` set df_go = {} then 0
                    else real (card (set ipro_go \<inter> fst ` set df_go)) /
                         real (card (set ipro_go \<union> fst ` set df_go))) \<and>
       (set ipro_go = {} \<and> fst ` set df_go = {} \<longrightarrow> jaccard r = 0) \<and>
       (set ipro_go = fst ` set df_go \<and> set ipro_go \<noteq> {} \<longrightarrow> jaccard r = 1)"
proof -
  have "set ipro_go = fst ` set df_go \<Longrightarrow> set ipro_go \<noteq> {} \<Longrightarrow>
        jaccard_spec (set ipro_go) (fst ` set df_go) = 1"
    by (simp add: jaccard_spec_def card_eq_0_iff)
  then show ?thesis
    unfolding analyze_pdb_spec by (simp add: jaccard_spec_def)
qed

text \<open>The theorem at two empty inputs, at two equal inputs, and at an overlap of one term in three.\<close>

theorem jaccard_index_witness:
  "map_sum id jaccard (analyze_pdb synthetic_dag [] [] (7 / 10)) = Inr 0
   \<and> map_sum id jaccard
        (analyze_pdb synthetic_dag [''X'', ''Z''] [(''Z'', 9 / 10), (''X'', 1 / 2)] (7 / 10)) = Inr 1
   \<and> map_sum id jaccard
        (analyze_pdb synthetic_dag [''X'', ''Z''] [(''X'', 9 / 10), (''Y'', 1 / 2)] (7 / 10)) = Inr (1 / 3)"
proof -
  from jaccard_index[of synthetic_dag "[]" "[]" "7 / 10"]
  obtain r where r: "analyze_pdb synthetic_dag [] [] (7 / 10) = Inr r" "jaccard r = 0" by auto
  from jaccard_index[of synthetic_dag "[''X'', ''Z'']" "[(''Z'', 9 / 10), (''X'', 1 / 2)]" "7 / 10"]
  obtain r' where r': "analyze_pdb synthetic_dag [''X'', ''Z''] [(''Z'', 9 / 10), (''X'', 1 / 2)] (7 / 10) = Inr r'"
    "set [''X'', ''Z''] = fst ` set [(''Z'', 9 / 10 :: real), (''X'', 1 / 2)] \<and> set [''X'', ''Z''] \<noteq> {}
       \<longrightarrow> jaccard r' = 1" by blast
  have "set [''X'', ''Z''] = fst ` set [(''Z'', 9 / 10 :: real), (''X'', 1 / 2)] \<and> set [''X'', ''Z''] \<noteq> {}"
    by auto
  with r'(2) have j': "jaccard r' = 1" by blast
  from jaccard_index[of synthetic_dag "[''X'', ''Z'']" "[(''X'', 9 / 10), (''Y'', 1 / 2)]" "7 / 10"]
  obtain r'' where r'': "analyze_pdb synthetic_dag [''X'', ''Z''] [(''X'', 9 / 10), (''Y'', 1 / 2)] (7 / 10) = Inr r''"
    "jaccard r'' = (if set [''X'', ''Z''] \<union> fst ` set [(''X'', 9 / 10 :: real), (''Y'', 1 / 2)] = {} then 0
                    else real (card (set [''X'', ''Z''] \<inter> fst ` set [(''X'', 9 / 10 :: real), (''Y'', 1 / 2)])) /
                         real (card (set [''X'', ''Z''] \<union> fst ` set [(''X'', 9 / 10 :: real), (''Y'', 1 / 2)])))"
    by blast
  from r''(2) have j'': "jaccard r'' = 1 / 3" by (simp add: card_insert_if)
  show ?thesis unfolding r(1) r'(1) r''(1) using r(2) j' j'' by simp
qed

text \<open>
  C10: in the result of \<^verbatim>\<open>analyze_pdb\<close> the sets \<open>common\<close>, \<open>interpro_only\<close> and \<open>deepfri_only\<close>
  are pairwise disjoint and their union is the union of the two inputs; every count field is
  the size of its set (or the length of its list); \<open>interpro_count\<close> is
  \<open>common_count + interpro_only_count\<close>, \<open>deepfri_count\<close> is \<open>common_count + deepfri_only_count\<close>;
  and \<open>high_confidence_common\<close> is a subset of \<open>common\<close>.
\<close>

theorem exact_match_partition:
  "\<exists>r. analyze_pdb g ipro_go df_go thr = Inr r \<and>
       common r \<inter> interpro_only r = {} \<and>
       common r \<inter> deepfri_only r = {} \<and>
       interpro_only r \<inter> deepfri_only r = {} \<and>
       common r \<union> interpro_only r \<union> deepfri_only r = set ipro_go \<union> fst ` set df_go \<and>
       interpro_count r = card (set ipro_go) \<and>
       deepfri_count r = card (fst ` set df_go) \<and>
       common_count r = card (common r) \<and>
       high_confidence_count r = card (high_confidence_common r) \<and>
       interpro_only_count r = card (interpro_only r) \<and>
       deepfri_only_count r = card (deepfri_only r) \<and>
       semantic_pairs_count r = length (sem_pairs r) \<and>
       interpro_count r = common_count r + interpro_only_count r \<and>
       deepfri_count r = common_count r + deepfri_only_count r \<and>
       high_confidence_common r \<subseteq> common r"
proof -
  let ?A = "set ipro_go" and ?B = "fst ` set df_go"
  have fa: "finite ?A" and fb: "finite ?B" by simp_all
  have "card ((?A \<inter> ?B) \<union> (?A - ?B)) = card (?A \<inter> ?B) + card (?A - ?B)"
    by (rule card_Un_disjoint) (use fa in auto)
  moreover have "(?A \<inter> ?B) \<union> (?A - ?B) = ?A" by blast
  ultimately have ca: "card ?A = card (?A \<inter> ?B) + card (?A - ?B)" by simp
  have "card ((?A \<inter> ?B) \<union> (?B - ?A)) = card (?A \<inter> ?B) + card (?B - ?A)"
    by (rule card_Un_disjoint) (use fb in auto)
  moreover have "(?A \<inter> ?B) \<union> (?B - ?A) = ?B" by blast
  ultimately have cb: "card ?B = card (?A \<inter> ?B) + card (?B - ?A)" by simp
  have hc: "high_confidence_spec df_go (?A \<inter> ?B) (8 / 10) \<subseteq> ?A \<inter> ?B"
    by (auto simp: high_confidence_spec_def)
  obtain r where r: "analyze_pdb g ipro_go df_go thr = Inr r"
    and f: "interpro_count r = card ?A" "deepfri_count r = card ?B"
      "common r = ?A \<inter> ?B" "common_count r = card (?A \<inter> ?B)"
      "high_confidence_common r = high_confidence_spec df_go (?A \<inter> ?B) (8 / 10)"
      "high_confidence_count r = card (high_confidence_spec df_go (?A \<inter> ?B) (8 / 10))"
      "interpro_only r = ?A - ?B" "interpro_only_count r = card (?A - ?B)"
      "deepfri_only r = ?B - ?A" "deepfri_only_count r = card (?B - ?A)"
      "semantic_pairs_count r = length (sem_pairs r)"
    by (rule analyze_pdb_fields)
  have "common r \<inter> interpro_only r = {}" "common r \<inter> deepfri_only r = {}"
    "interpro_only r \<inter> deepfri_only r = {}"
    "common r \<union> interpro_only r \<union> deepfri_only r = ?A \<union> ?B"
    unfolding f by blast+
  moreover have "common_count r = card (common r)"
    "high_confidence_count r = card (high_confidence_common r)"
    "interpro_only_count r = card (interpro_only r)"
    "deepfri_only_count r = card (deepfri_only r)"
    unfolding f by (rule refl)+
  moreover have "interpro_count r = common_count r + interpro_only_count r"
    "deepfri_count r = common_count r + deepfri_only_count r"
    unfolding f by (rule ca, rule cb)
  moreover have "high_confidence_common r \<subseteq> common r" unfolding f by (rule hc)
  ultimately show ?thesis using r f(1,2,11) by blast
qed

text \<open>The theorem at the reconciliation example of the spec: three terms, one of them shared.\<close>

theorem exact_match_partition_witness:
  "\<exists>r. analyze_pdb [] [''GO:0001'', ''GO:0003'']
          [(''GO:0001'', 9 / 10), (''GO:0002'', 1 / 2)] (7 / 10) = Inr r \<and>
       common r \<union> interpro_only r \<union> deepfri_only r = {''GO:0001'', ''GO:0002'', ''GO:0003''} \<and>
       interpro_count r = 2 \<and> deepfri_count r = 2 \<and>
       common_count r + interpro_only_count r = 2 \<and>
       common_count r + deepfri_only_count r = 2"
proof -
  from exact_match_partition[of "[]" "[''GO:0001'', ''GO:0003'']"
      "[(''GO:0001'', 9 / 10), (''GO:0002'', 1 / 2)]" "7 / 10"]
  obtain r where r: "analyze_pdb [] [''GO:0001'', ''GO:0003'']
        [(''GO:0001'', 9 / 10), (''GO:0002'', 1 / 2)] (7 / 10) = Inr r"
    and u: "common r \<union> interpro_only r \<union> deepfri_only r
            = set [''GO:0001'', ''GO:0003''] \<union> fst ` set [(''GO:0001'', 9 / 10 :: real), (''GO:0002'', 1 / 2)]"
    and n: "interpro_count r = card (set [''GO:0001'', ''GO:0003''])"
      "deepfri_count r = card (fst ` set [(''GO:0001'', 9 / 10 :: real), (''GO:0002'', 1 / 2)])"
      "interpro_count r = common_count r + interpro_only_count r"
      "deepfri_count r = common_count r + deepfri_only_count r"
    by blast
  from u have u': "common r \<union> interpro_only r \<union> deepfri_only r = {''GO:0001'', ''GO:0002'', ''GO:0003''}"
    by auto
  from n(1) have n1: "interpro_count r = 2" by simp
  from n(2) have n2: "deepfri_count r = 2" by simp
  from n1 n2 n(3,4) have "common_count r + interpro_only_count r = 2"
    "common_count r + deepfri_only_count r = 2" by simp_all
  with r u' n1 n2 show ?thesis by blast
qed

text \<open>
  C3, as stated, fails: \<^verbatim>\<open>analyze_pdb\<close> has no confidence threshold among its parameters, and
  line 196 compares with the constant 0.8.  A caller who wants the cutoff 0.5 gets, for a
  shared term of score 0.6, an empty high-confidence set where the claim's set holds the term.
\<close>

theorem confidence_threshold_counterexample:
  "map_sum id high_confidence_common
     (analyze_pdb [] [''GO:0000001''] [(''GO:0000001'', 6 / 10)] (7 / 10)) = Inr {}
   \<and> map_sum id common
     (analyze_pdb [] [''GO:0000001''] [(''GO:0000001'', 6 / 10)] (7 / 10)) = Inr {''GO:0000001''}
   \<and> high_confidence_spec [(''GO:0000001'', 6 / 10)] {''GO:0000001''} (1 / 2) = {''GO:0000001''}"
  by (simp add: analyze_pdb_spec high_confidence_spec_def)

text \<open>
  C3 (amended): the high-confidence intersection is the subset of the exact intersection whose
  terms have a DeepFRI score of at least 0.8; the cutoff is the constant of line 196, the same
  for every caller and every value of the one threshold \<^verbatim>\<open>analyze_pdb\<close> takes (the similarity
  threshold).
\<close>

theorem high_confidence_fixed_cutoff:
  "\<exists>r. analyze_pdb g ipro_go df_go thr = Inr r \<and>
       common r = set ipro_go \<inter> fst ` set df_go \<and>
       high_confidence_common r = high_confidence_spec df_go (common r) (8 / 10)"
  unfolding analyze_pdb_spec by simp

text \<open>The theorem at the reconciliation example of the spec (scores 0.9 and 0.5).\<close>

theorem high_confidence_fixed_cutoff_witness:
  "map_sum id high_confidence_common
     (analyze_pdb [] [''GO:0001'', ''GO:0003''] [(''GO:0001'', 9 / 10), (''GO:0002'', 1 / 2)] (7 / 10))
   = Inr {''GO:0001''}"
proof -
  from high_confidence_fixed_cutoff[of "[]" "[''GO:0001'', ''GO:0003'']"
      "[(''GO:0001'', 9 / 10), (''GO:0002'', 1 / 2)]" "7 / 10"]
  obtain r where r: "analyze_pdb [] [''GO:0001'', ''GO:0003'']
        [(''GO:0001'', 9 / 10), (''GO:0002'', 1 / 2)] (7 / 10) = Inr r"
    and c: "common r = set [''GO:0001'', ''GO:0003''] \<inter> fst ` set [(''GO:0001'', 9 / 10 :: real), (''GO:0002'', 1 / 2)]"
    and h: "high_confidence_common r
            = high_confidence_spec [(''GO:0001'', 9 / 10), (''GO:0002'', 1 / 2)] (common r) (8 / 10)"
    by blast
  from c have c': "common r = {''GO:0001''}" by auto
  have "high_confidence_common r = {''GO:0001''}"
    unfolding h c' by (auto simp: high_confidence_spec_def)
  with r show ?thesis by simp
qed

text \<open>
  C9, as stated, fails.  \<open>ipro_go\<close> is a Python set of strings; the order in which it is
  iterated is not fixed by its contents (it varies with the hash seed of the process), and the
  list \<^verbatim>\<open>semantic_pairs\<close> is built in that order.  Two runs on the same set that iterate it in
  different orders return different lists.
\<close>

theorem iteration_order_counterexample:
  "distinct [''Z'', ''X''] \<and> distinct [''X'', ''Z''] \<and> set [''Z'', ''X''] = set [''X'', ''Z'']
   \<and> map_sum id sem_pairs
        (analyze_pdb synthetic_dag [''Z'', ''X''] [(''X'', 9 / 10), (''Y'', 1 / 2)] (1 / 2))
      = Inr [(''Z'', ''X'', 1 / 2), (''X'', ''X'', 1)]
   \<and> map_sum id sem_pairs
        (analyze_pdb synthetic_dag [''X'', ''Z''] [(''X'', 9 / 10), (''Y'', 1 / 2)] (1 / 2))
      = Inr [(''X'', ''X'', 1), (''Z'', ''X'', 1 / 2)]
   \<and> analyze_pdb synthetic_dag [''Z'', ''X''] [(''X'', 9 / 10), (''Y'', 1 / 2)] (1 / 2)
      \<noteq> analyze_pdb synthetic_dag [''X'', ''Z''] [(''X'', 9 / 10), (''Y'', 1 / 2)] (1 / 2)"
proof -
  have "collect_scores synthetic_dag [''Z'', ''X''] [''X'', ''Y''] []
          = Inr [(''Z'', ''X'', 1 / 2), (''X'', ''X'', 1)]"
    by (simp add: eval_defs)
  then have r1: "recorded_pairs synthetic_dag [''Z'', ''X''] [''X'', ''Y'']
          = [(''Z'', ''X'', 1 / 2), (''X'', ''X'', 1)]" by (rule recorded_pairs_eval)
  have "collect_scores synthetic_dag [''X'', ''Z''] [''X'', ''Y''] []
          = Inr [(''X'', ''X'', 1), (''Z'', ''X'', 1 / 2)]"
    by (simp add: eval_defs)
  then have r2: "recorded_pairs synthetic_dag [''X'', ''Z''] [''X'', ''Y'']
          = [(''X'', ''X'', 1), (''Z'', ''X'', 1 / 2)]" by (rule recorded_pairs_eval)
  have s1: "map_sum id sem_pairs
        (analyze_pdb synthetic_dag [''Z'', ''X''] [(''X'', 9 / 10), (''Y'', 1 / 2)] (1 / 2))
      = Inr [(''Z'', ''X'', 1 / 2), (''X'', ''X'', 1)]"
    by (simp add: analyze_pdb_spec r1)
  have s2: "map_sum id sem_pairs
        (analyze_pdb synthetic_dag [''X'', ''Z''] [(''X'', 9 / 10), (''Y'', 1 / 2)] (1 / 2))
      = Inr [(''X'', ''X'', 1), (''Z'', ''X'', 1 / 2)]"
    by (simp add: analyze_pdb_spec r2)
  have "analyze_pdb synthetic_dag [''Z'', ''X''] [(''X'', 9 / 10), (''Y'', 1 / 2)] (1 / 2)
      \<noteq> analyze_pdb synthetic_dag [''X'', ''Z''] [(''X'', 9 / 10), (''Y'', 1 / 2)] (1 / 2)"
  proof
    assume "analyze_pdb synthetic_dag [''Z'', ''X''] [(''X'', 9 / 10), (''Y'', 1 / 2)] (1 / 2)
      = analyze_pdb synthetic_dag [''X'', ''Z''] [(''X'', 9 / 10), (''Y'', 1 / 2)] (1 / 2)"
    with s1 s2 have "Inr [(''Z'', ''X'', 1 / 2 :: real), (''X'', ''X'', 1)]
        = (Inr [(''X'', ''X'', 1), (''Z'', ''X'', 1 / 2)] :: py_error + sim_pair list)"
      by (simp only:)
    then show False by simp
  qed
  moreover have "distinct [''Z'', ''X'']" "distinct [''X'', ''Z'']"
    "set [''Z'', ''X''] = set [''X'', ''Z'']" by auto
  ultimately show ?thesis using s1 s2 by blast
qed

text \<open>
  C9 (amended): two runs of the comparison on the same InterProScan set, the same DeepFRI
  dictionary (the same items in the same insertion order), the same graph and the same
  threshold both return a result; the results agree in every field other than
  \<^verbatim>\<open>semantic_pairs\<close> and \<^verbatim>\<open>semantic_avg_sim\<close>, and their lists \<^verbatim>\<open>semantic_pairs\<close> hold the
  same pairs with the same multiplicities, possibly in a different order.  The mean
  \<^verbatim>\<open>semantic_avg_sim\<close> is left out: it is a float sum taken in the order of the list.
\<close>

theorem analyze_pdb_order_independent:
  assumes "distinct xs" "distinct ys" "set xs = set ys"
  shows "\<exists>r r'. analyze_pdb g xs df_go thr = Inr r \<and> analyze_pdb g ys df_go thr = Inr r' \<and>
           r'\<lparr>sem_pairs := [], semantic_avg_sim := 0\<rparr>
             = r\<lparr>sem_pairs := [], semantic_avg_sim := 0\<rparr> \<and>
           mset (sem_pairs r') = mset (sem_pairs r)"
proof -
  from assms have ms: "mset xs = mset ys" by (simp add: set_eq_iff_mset_eq_distinct)
  have rp: "mset (recorded_pairs g xs (map fst df_go)) = mset (recorded_pairs g ys (map fst df_go))"
    unfolding recorded_pairs_def by (rule mset_map_filter[OF ms])
  have fl: "mset (filter (\<lambda>(a, b, s). thr \<le> s) (recorded_pairs g xs (map fst df_go)))
          = mset (filter (\<lambda>(a, b, s). thr \<le> s) (recorded_pairs g ys (map fst df_go)))"
    using rp by simp
  then have len: "length (filter (\<lambda>(a, b, s). thr \<le> s) (recorded_pairs g xs (map fst df_go)))
          = length (filter (\<lambda>(a, b, s). thr \<le> s) (recorded_pairs g ys (map fst df_go)))"
    by (rule mset_eq_length)
  show ?thesis
    unfolding analyze_pdb_spec
    apply (intro exI conjI)
       apply (rule refl)
      apply (rule refl)
    subgoal by (simp add: assms(3) len)
    subgoal by (simp only: comparison.simps fl)
    done
qed

text \<open>The theorem at the two iteration orders of the set \<open>{Z, X}\<close>.\<close>

theorem analyze_pdb_order_independent_witness:
  "distinct [''Z'', ''X''] \<and> distinct [''X'', ''Z''] \<and> set [''Z'', ''X''] = set [''X'', ''Z'']
   \<and> (\<exists>r r'. analyze_pdb synthetic_dag [''Z'', ''X''] [(''X'', 9 / 10), (''Y'', 1 / 2)] (1 / 2) = Inr r
          \<and> analyze_pdb synthetic_dag [''X'', ''Z''] [(''X'', 9 / 10), (''Y'', 1 / 2)] (1 / 2) = Inr r'
          \<and> r'\<lparr>sem_pairs := [], semantic_avg_sim := 0\<rparr>
              = r\<lparr>sem_pairs := [], semantic_avg_sim := 0\<rparr>
          \<and> mset (sem_pairs r') = mset (sem_pairs r))"
proof -
  have 1: "distinct [''Z'', ''X'']" and 2: "distinct [''X'', ''Z'']"
    and 3: "set [''Z'', ''X''] = set [''X'', ''Z'']" by auto
  from analyze_pdb_order_independent[OF 1 2 3, of synthetic_dag "[(''X'', 9 / 10), (''Y'', 1 / 2)]" "1 / 2"]
    1 2 3
  show ?thesis by blast
qed

end
